theory Spec2Isabelle
  imports Complex_Main
begin

section \<open>Data model of the props fetcher\<close>

text \<open>
  The fetcher of \<^verbatim>\<open>mlb_props_analyzer.py\<close> walks the JSON answer of the odds
  endpoint: a dictionary with a list of bookmakers, each with a list of markets, each
  with a list of outcomes. A key read with \<^verbatim>\<open>d[k]\<close> raises \<^verbatim>\<open>KeyError\<close> when it is
  absent, a key read with \<^verbatim>\<open>d.get(k, default)\<close> does not; so every key of the answer
  is an optional field here, and the two ways of reading it are two functions.
\<close>

datatype error = KeyError string | AttributeError string | UnexpectedError

definition subscript :: "string \<Rightarrow> 'a option \<Rightarrow> error + 'a" where
  "subscript k field = (case field of None \<Rightarrow> Inl (KeyError k) | Some v \<Rightarrow> Inr v)"

definition dict_get :: "'a option \<Rightarrow> 'a \<Rightarrow> 'a" where
  "dict_get field dflt = (case field of None \<Rightarrow> dflt | Some v \<Rightarrow> v)"

text \<open>A JSON scalar as the fetcher stores it: the line is a number, or the text
  \<^verbatim>\<open>'N/A'\<close> when the outcome has no point.\<close>

datatype jval = JStr string | JNum rat

record outcome =
  description :: "string option"
  name :: "string option"
  point :: "rat option"
  price :: "int option"

record market =
  key :: "string option"
  mk_last_update :: "string option"
  outcomes :: "outcome list option"

record bookmaker_entry =
  title :: "string option"
  bm_last_update :: "string option"
  markets :: "market list option"

text \<open>The answer of the odds endpoint for one event. A Python dictionary is falsy
  exactly when it has no key at all, so the record says whether keys other than
  \<^verbatim>\<open>'bookmakers'\<close> are present.\<close>

record props_response =
  has_other_keys :: bool
  resp_bookmakers :: "bookmaker_entry list option"

record event =
  event_id :: "string option"
  home_team :: "string option"
  away_team :: "string option"
  commence_time :: "string option"

text \<open>The dictionary \<^verbatim>\<open>prop_data\<close> built for every outcome (lines 248 to 259).\<close>

record prop_data =
  Event_ID :: string
  Game :: string
  Game_Time :: string
  Category :: string
  Player :: string
  Bet_Type :: string
  Line :: jval
  Odds :: int
  Bookmaker :: string
  Last_Update :: string

text \<open>The dictionary \<^verbatim>\<open>prop_info\<close> stored per player (lines 162 to 169).\<close>

record prop_info =
  category :: string
  bet_type :: string
  line :: jval
  odds :: int
  bookmaker :: string
  game :: string

text \<open>One value of \<^verbatim>\<open>unique_players\<close> (lines 151 to 156).\<close>

record player_entry =
  categories :: "string set"
  props :: "prop_info list"
  games :: "string set"
  bookmakers :: "string set"

type_synonym players = "string \<rightharpoonup> player_entry"

type_synonym buckets = "string \<rightharpoonup> prop_data list"

text \<open>The three dictionaries of \<^verbatim>\<open>OddsAPIExcelFetcher\<close> that the run fills
  (lines 79 to 81).\<close>

record fetcher =
  unique_players :: players
  over_props :: buckets
  under_props :: buckets

definition prop_categories :: "string list" where
  "prop_categories =
     [''batter_home_runs'', ''batter_hits'', ''batter_total_bases'', ''batter_rbis'',
      ''batter_runs_scored'', ''batter_hits_runs_rbis'', ''batter_singles'',
      ''batter_strikeouts'', ''pitcher_strikeouts'', ''pitcher_hits_allowed'',
      ''pitcher_earned_runs'', ''pitcher_outs'']"

section \<open>The player aggregate\<close>

text \<open>\<^verbatim>\<open>process_player_data\<close> (lines 146 to 172): create the player's entry when the
  name is new, then add the category, append the prop, add the game and the bookmaker.\<close>

definition new_player :: player_entry where
  "new_player = \<lparr>categories = {}, props = [], games = {}, bookmakers = {}\<rparr>"

definition make_prop_info :: "string \<Rightarrow> prop_data \<Rightarrow> prop_info" where
  "make_prop_info cat pd =
     \<lparr>category = cat, bet_type = Bet_Type pd, line = Line pd, odds = Odds pd,
      bookmaker = Bookmaker pd, game = Game pd\<rparr>"

definition process_player_data :: "string \<Rightarrow> string \<Rightarrow> prop_data \<Rightarrow> players \<Rightarrow> players" where
  "process_player_data player_name cat pd up =
     (let e0 = (case up player_name of None \<Rightarrow> new_player | Some e \<Rightarrow> e);
          e1 = e0\<lparr>categories := insert cat (categories e0)\<rparr>;
          e2 = e1\<lparr>props := props e1 @ [make_prop_info cat pd]\<rparr>;
          e3 = e2\<lparr>games := insert (Game pd) (games e2)\<rparr>;
          e4 = e3\<lparr>bookmakers := insert (Bookmaker pd) (bookmakers e3)\<rparr>
      in up(player_name \<mapsto> e4))"

text \<open>A sequence of ingests: the calls of \<^verbatim>\<open>process_player_data\<close> in order, each with
  its player name, category and prop.\<close>

fun ingest_all :: "(string \<times> string \<times> prop_data) list \<Rightarrow> players \<Rightarrow> players" where
  "ingest_all [] up = up"
| "ingest_all ((player_name, cat, pd) # rest) up =
     ingest_all rest (process_player_data player_name cat pd up)"

definition props_len :: "players \<Rightarrow> string \<Rightarrow> nat" where
  "props_len up player_name = (case up player_name of None \<Rightarrow> 0 | Some e \<Rightarrow> length (props e))"

definition props_of :: "players \<Rightarrow> string \<Rightarrow> prop_info list" where
  "props_of up player_name = (case up player_name of None \<Rightarrow> [] | Some e \<Rightarrow> props e)"

definition ingested_for :: "string \<Rightarrow> (string \<times> string \<times> prop_data) list \<Rightarrow> nat" where
  "ingested_for player_name calls = length (filter (\<lambda>c. fst c = player_name) calls)"

text \<open>Consistency of one entry, and of the whole dictionary.\<close>

definition entry_consistent :: "player_entry \<Rightarrow> bool" where
  "entry_consistent e \<longleftrightarrow>
     (\<forall>p \<in> set (props e).
        category p \<in> categories e \<and> game p \<in> games e \<and> bookmaker p \<in> bookmakers e)"

definition players_consistent :: "players \<Rightarrow> bool" where
  "players_consistent up \<longleftrightarrow> (\<forall>e \<in> ran up. entry_consistent e)"

section \<open>Normalising one outcome and routing it\<close>

text \<open>\<^verbatim>\<open>str.lower\<close>, on the letters A to Z. The run compares the result with
  \<^verbatim>\<open>'over'\<close> and \<^verbatim>\<open>'under'\<close> only, and no character outside A to Z is lowered
  by Python to one of the letters of these two words.\<close>

definition lower_char :: "char \<Rightarrow> char" where
  "lower_char c =
     (case map_of (zip ''ABCDEFGHIJKLMNOPQRSTUVWXYZ'' ''abcdefghijklmnopqrstuvwxyz'') c of
        None \<Rightarrow> c
      | Some d \<Rightarrow> d)"

definition lower :: "string \<Rightarrow> string" where
  "lower s = map lower_char s"

text \<open>The local variables read from the event at the top of the loop body
  (lines 204 to 207).\<close>

record game_vars =
  gv_event_id :: string
  gv_home_team :: string
  gv_away_team :: string
  gv_commence_time :: string

definition matchup :: "game_vars \<Rightarrow> string" where
  "matchup gv = gv_away_team gv @ '' @ '' @ gv_home_team gv"

text \<open>The dictionary display of lines 248 to 259. Python evaluates its values in
  order, so a missing \<^verbatim>\<open>'name'\<close> is reported before a missing \<^verbatim>\<open>'price'\<close>.\<close>

definition make_prop_data ::
  "game_vars \<Rightarrow> bookmaker_entry \<Rightarrow> string \<Rightarrow> market \<Rightarrow> string \<Rightarrow> outcome \<Rightarrow> error + prop_data" where
  "make_prop_data gv bm bookmaker_name mk market_key oc =
     (case subscript ''name'' (name oc) of
        Inl e \<Rightarrow> Inl e
      | Inr nm \<Rightarrow>
          (case subscript ''price'' (price oc) of
             Inl e \<Rightarrow> Inl e
           | Inr pr \<Rightarrow>
               Inr \<lparr>Event_ID = gv_event_id gv,
                    Game = matchup gv,
                    Game_Time = gv_commence_time gv,
                    Category = market_key,
                    Player = dict_get (description oc) ''Unknown'',
                    Bet_Type = nm,
                    Line = dict_get (map_option JNum (point oc)) (JStr ''N/A''),
                    Odds = pr,
                    Bookmaker = bookmaker_name,
                    Last_Update = dict_get (mk_last_update mk) (dict_get (bm_last_update bm) [])\<rparr>))"

definition bucket_append :: "string \<Rightarrow> prop_data \<Rightarrow> buckets \<Rightarrow> error + buckets" where
  "bucket_append k pd b =
     (case b k of None \<Rightarrow> Inl (KeyError k) | Some l \<Rightarrow> Inr (b(k \<mapsto> l @ [pd])))"

text \<open>An exception leaves a loop together with the state of the fetcher at that moment:
  what was stored before the raise stays stored. A result \<open>Inl (e, st)\<close> is the
  exception \<open>e\<close> raised in the state \<open>st\<close>, a result \<open>Inr st\<close> is a normal
  end.\<close>

definition raised :: "('e \<times> 's) + 's \<Rightarrow> 'e option" where
  "raised r = (case r of Inl x \<Rightarrow> Some (fst x) | Inr st \<Rightarrow> None)"

definition state_of :: "('e \<times> 's) + 's \<Rightarrow> 's" where
  "state_of r = (case r of Inl x \<Rightarrow> snd x | Inr st \<Rightarrow> st)"

text \<open>Lines 266 to 270.\<close>

definition route ::
  "string \<Rightarrow> outcome \<Rightarrow> prop_data \<Rightarrow> fetcher \<Rightarrow> (error \<times> fetcher) + fetcher" where
  "route market_key oc pd st =
     (if market_key \<in> set prop_categories then
        (case subscript ''name'' (name oc) of
           Inl e \<Rightarrow> Inl (e, st)
         | Inr nm \<Rightarrow>
             if lower nm = ''over'' then
               (case bucket_append market_key pd (over_props st) of
                  Inl e \<Rightarrow> Inl (e, st)
                | Inr b \<Rightarrow> Inr (st\<lparr>over_props := b\<rparr>))
             else if lower nm = ''under'' then
               (case bucket_append market_key pd (under_props st) of
                  Inl e \<Rightarrow> Inl (e, st)
                | Inr b \<Rightarrow> Inr (st\<lparr>under_props := b\<rparr>))
             else Inr st)
      else Inr st)"

text \<open>The body of the loop over outcomes (lines 248 to 270).\<close>

definition process_outcome ::
  "game_vars \<Rightarrow> bookmaker_entry \<Rightarrow> string \<Rightarrow> market \<Rightarrow> string \<Rightarrow> outcome \<Rightarrow> fetcher
     \<Rightarrow> (error \<times> fetcher) + fetcher" where
  "process_outcome gv bm bookmaker_name mk market_key oc st =
     (case make_prop_data gv bm bookmaker_name mk market_key oc of
        Inl e \<Rightarrow> Inl (e, st)
      | Inr pd \<Rightarrow>
          route market_key oc pd
            (st\<lparr>unique_players :=
                  process_player_data (Player pd) market_key pd (unique_players st)\<rparr>))"

fun outcomes_loop ::
  "game_vars \<Rightarrow> bookmaker_entry \<Rightarrow> string \<Rightarrow> market \<Rightarrow> string \<Rightarrow> outcome list \<Rightarrow> fetcher
     \<Rightarrow> (error \<times> fetcher) + fetcher" where
  "outcomes_loop gv bm bookmaker_name mk market_key [] st = Inr st"
| "outcomes_loop gv bm bookmaker_name mk market_key (oc # ocs) st =
     (case process_outcome gv bm bookmaker_name mk market_key oc st of
        Inl x \<Rightarrow> Inl x
      | Inr st' \<Rightarrow> outcomes_loop gv bm bookmaker_name mk market_key ocs st')"

text \<open>The loop over the markets of one bookmaker (lines 242 to 270); the set
  \<^verbatim>\<open>available_markets\<close> is only printed and is left out.\<close>

fun markets_loop ::
  "game_vars \<Rightarrow> bookmaker_entry \<Rightarrow> string \<Rightarrow> market list \<Rightarrow> fetcher
     \<Rightarrow> (error \<times> fetcher) + fetcher" where
  "markets_loop gv bm bookmaker_name [] st = Inr st"
| "markets_loop gv bm bookmaker_name (mk # mks) st =
     (case subscript ''key'' (key mk) of
        Inl e \<Rightarrow> Inl (e, st)
      | Inr market_key \<Rightarrow>
          (case outcomes_loop gv bm bookmaker_name mk market_key (dict_get (outcomes mk) []) st of
             Inl x \<Rightarrow> Inl x
           | Inr st' \<Rightarrow> markets_loop gv bm bookmaker_name mks st'))"

text \<open>The loop over the bookmakers of one answer (lines 239 to 270).\<close>

fun bookmakers_loop ::
  "game_vars \<Rightarrow> bookmaker_entry list \<Rightarrow> fetcher \<Rightarrow> (error \<times> fetcher) + fetcher" where
  "bookmakers_loop gv [] st = Inr st"
| "bookmakers_loop gv (bm # bms) st =
     (case subscript ''title'' (title bm) of
        Inl e \<Rightarrow> Inl (e, st)
      | Inr bookmaker_name \<Rightarrow>
          (case markets_loop gv bm bookmaker_name (dict_get (markets bm) []) st of
             Inl x \<Rightarrow> Inl x
           | Inr st' \<Rightarrow> bookmakers_loop gv bms st'))"

text \<open>The two bucket dictionaries as \<^verbatim>\<open>__init__\<close> and the start of the run build
  them: every category mapped to the empty list (lines 80, 81, 186 and 187).\<close>

definition empty_buckets :: buckets where
  "empty_buckets = map_of (map (\<lambda>c. (c, [])) prop_categories)"

definition reset :: fetcher where
  "reset = \<lparr>unique_players = Map.empty, over_props = empty_buckets, under_props = empty_buckets\<rparr>"

definition bucket_len :: "buckets \<Rightarrow> string \<Rightarrow> nat" where
  "bucket_len b c = (case b c of None \<Rightarrow> 0 | Some l \<Rightarrow> length l)"

definition bucket_list :: "buckets \<Rightarrow> string \<Rightarrow> prop_data list" where
  "bucket_list b c = (case b c of None \<Rightarrow> [] | Some l \<Rightarrow> l)"

definition buckets_total :: "buckets \<Rightarrow> nat" where
  "buckets_total b = sum_list (map (bucket_len b) prop_categories)"

definition buckets_ok :: "fetcher \<Rightarrow> bool" where
  "buckets_ok st \<longleftrightarrow>
     dom (over_props st) = set prop_categories \<and> dom (under_props st) = set prop_categories"

section \<open>Fetching one event, with retries\<close>

text \<open>What the HTTP layer does for one call: it answers with JSON, it raises a
  \<^verbatim>\<open>requests.exceptions.RequestException\<close>, or it raises something else.\<close>

datatype 'a http_result = HttpOk 'a | RequestException | OtherException

text \<open>The answers the odds endpoint gives to the successive calls made for one event,
  numbered by the loop variable \<^verbatim>\<open>retry\<close>.\<close>

type_synonym replies = "nat \<Rightarrow> props_response http_result"

text \<open>What the run does to the outside world, in order.\<close>

datatype effect = GetEvents | GetEventProps string | Sleep rat | CreateWorkbook string
  | RunAnalysis

text \<open>\<^verbatim>\<open>get_event_props\<close> (lines 137 to 144): a request exception is caught and turned
  into \<^verbatim>\<open>None\<close>, any other exception leaves the method.\<close>

definition get_event_props :: "props_response http_result \<Rightarrow> error + props_response option" where
  "get_event_props reply =
     (case reply of
        HttpOk r \<Rightarrow> Inr (Some r)
      | RequestException \<Rightarrow> Inr None
      | OtherException \<Rightarrow> Inl UnexpectedError)"

definition truthy :: "props_response option \<Rightarrow> bool" where
  "truthy props_data =
     (case props_data of
        None \<Rightarrow> False
      | Some r \<Rightarrow> (case resp_bookmakers r of None \<Rightarrow> has_other_keys r | Some bms \<Rightarrow> True))"

text \<open>The retry loop (lines 224 to 233) over the values of \<^verbatim>\<open>range(max_retries)\<close>
  still to come. It carries the variable \<^verbatim>\<open>props_data\<close> and the effects so far.
  The sleep of two seconds stands in the \<^verbatim>\<open>except\<close> branch only.\<close>

fun retry_loop ::
  "nat \<Rightarrow> string \<Rightarrow> replies \<Rightarrow> nat list \<Rightarrow> props_response option \<Rightarrow> effect list
     \<Rightarrow> props_response option \<times> effect list" where
  "retry_loop max_retries eid net [] props_data tr = (props_data, tr)"
| "retry_loop max_retries eid net (retry # rest) props_data tr =
     (case get_event_props (net retry) of
        Inr r \<Rightarrow>
          if truthy r then (r, tr @ [GetEventProps eid])
          else retry_loop max_retries eid net rest r (tr @ [GetEventProps eid])
      | Inl e \<Rightarrow>
          retry_loop max_retries eid net rest props_data
            (tr @ [GetEventProps eid] @ (if retry < max_retries - 1 then [Sleep 2] else [])))"

definition fetch_with_retry :: "string \<Rightarrow> replies \<Rightarrow> effect list \<Rightarrow> props_response option \<times> effect list" where
  "fetch_with_retry eid net tr = retry_loop 3 eid net [0..<3] None tr"

section \<open>The loop over events\<close>

record event_row =
  row_Event_ID :: string
  row_Away_Team :: string
  row_Home_Team :: string
  row_Game_Time :: string
  row_Matchup :: string

record run =
  self :: fetcher
  events_summary :: "event_row list"
  effects :: "effect list"

definition read_event :: "event \<Rightarrow> error + game_vars" where
  "read_event ev =
     (case subscript ''id'' (event_id ev) of
        Inl e \<Rightarrow> Inl e
      | Inr i \<Rightarrow>
     (case subscript ''home_team'' (home_team ev) of
        Inl e \<Rightarrow> Inl e
      | Inr h \<Rightarrow>
     (case subscript ''away_team'' (away_team ev) of
        Inl e \<Rightarrow> Inl e
      | Inr a \<Rightarrow>
     (case subscript ''commence_time'' (commence_time ev) of
        Inl e \<Rightarrow> Inl e
      | Inr t \<Rightarrow>
          Inr \<lparr>gv_event_id = i, gv_home_team = h, gv_away_team = a, gv_commence_time = t\<rparr>))))"

definition make_event_row :: "game_vars \<Rightarrow> event_row" where
  "make_event_row gv =
     \<lparr>row_Event_ID = gv_event_id gv, row_Away_Team = gv_away_team gv,
      row_Home_Team = gv_home_team gv, row_Game_Time = gv_commence_time gv,
      row_Matchup = matchup gv\<rparr>"

text \<open>The body of the loop over events without its final delay (lines 204 to 275).
  An exception leaves the run; it is returned with the state of the run at the raise.\<close>

definition process_event :: "event \<Rightarrow> replies \<Rightarrow> run \<Rightarrow> (error \<times> run) + run" where
  "process_event ev net st =
     (case read_event ev of
        Inl e \<Rightarrow> Inl (e, st)
      | Inr gv \<Rightarrow>
          (let summary = events_summary st @ [make_event_row gv];
               (props_data, tr) = fetch_with_retry (gv_event_id gv) net (effects st)
           in if truthy props_data then
                (case props_data of
                   None \<Rightarrow> Inr (st\<lparr>events_summary := summary, effects := tr\<rparr>)
                 | Some r \<Rightarrow>
                     (case bookmakers_loop gv (dict_get (resp_bookmakers r) []) (self st) of
                        Inl x \<Rightarrow>
                          Inl (fst x, st\<lparr>self := snd x, events_summary := summary,
                                         effects := tr\<rparr>)
                      | Inr f \<Rightarrow> Inr (st\<lparr>self := f, events_summary := summary, effects := tr\<rparr>)))
              else Inr (st\<lparr>events_summary := summary, effects := tr\<rparr>)))"

text \<open>\<^verbatim>\<open>for i, event in enumerate(events, 1)\<close> with the delay of lines 278 and 279;
  \<open>n\<close> is \<^verbatim>\<open>len(events)\<close>. Every listed event comes with the replies to its calls.\<close>

fun events_loop ::
  "rat \<Rightarrow> nat \<Rightarrow> nat \<Rightarrow> (event \<times> replies) list \<Rightarrow> run \<Rightarrow> (error \<times> run) + run" where
  "events_loop delay_between_requests n i [] st = Inr st"
| "events_loop delay_between_requests n i ((ev, net) # rest) st =
     (case process_event ev net st of
        Inl x \<Rightarrow> Inl x
      | Inr st' \<Rightarrow>
          events_loop delay_between_requests n (Suc i) rest
            (if i < n then st'\<lparr>effects := effects st' @ [Sleep delay_between_requests]\<rparr>
             else st'))"

section \<open>The run\<close>

text \<open>Everything the run reads from outside: the API key of the process environment,
  the answer of the listing call with the replies for every listed event, whether
  writing the workbook raises, and the text of the time stamp.\<close>

record environment =
  api_key :: "string option"
  listing :: "(event \<times> replies) list http_result"
  workbook_error :: bool
  clock :: string

text \<open>\<^verbatim>\<open>get_mlb_events\<close> (lines 112 to 122).\<close>

definition get_mlb_events :: "'a list http_result \<Rightarrow> error + 'a list" where
  "get_mlb_events reply =
     (case reply of
        HttpOk events \<Rightarrow> Inr events
      | RequestException \<Rightarrow> Inr []
      | OtherException \<Rightarrow> Inl UnexpectedError)"

text \<open>The slice \<^verbatim>\<open>events[:m]\<close>.\<close>

definition slice_to :: "int \<Rightarrow> 'a list \<Rightarrow> 'a list" where
  "slice_to m xs = (if m < 0 then take (nat (int (length xs) + m)) xs else take (nat m) xs)"

text \<open>Lines 196 and 197: \<^verbatim>\<open>if max_events: events = events[:max_events]\<close>.\<close>

definition limit_events :: "int option \<Rightarrow> 'a list \<Rightarrow> 'a list" where
  "limit_events max_events events =
     (case max_events of
        None \<Rightarrow> events
      | Some m \<Rightarrow> if m \<noteq> 0 then slice_to m events else events)"

text \<open>The events the listing call hands to the run: none when the call fails.\<close>

definition listed :: "environment \<Rightarrow> (event \<times> replies) list" where
  "listed env = (case get_mlb_events (listing env) of Inl e \<Rightarrow> [] | Inr events \<Rightarrow> events)"

definition fetch_all_props_to_excel ::
  "environment \<Rightarrow> int option \<Rightarrow> rat \<Rightarrow> string option \<Rightarrow> (error \<times> run) + (string \<times> run)" where
  "fetch_all_props_to_excel env max_events delay_between_requests filename =
     (let st0 = \<lparr>self = reset, events_summary = [], effects = [GetEvents]\<rparr> in
      case get_mlb_events (listing env) of
        Inl e \<Rightarrow> Inl (e, st0)
      | Inr events0 \<Rightarrow>
          if events0 = [] then Inr ([], st0)
          else
            (let events = limit_events max_events events0
             in case events_loop delay_between_requests (length events) 1 events st0 of
                  Inl x \<Rightarrow> Inl x
                | Inr st \<Rightarrow>
                    (let fname =
                           (case filename of
                              None \<Rightarrow> ''mlb_props_'' @ clock env @ ''.xlsx''
                            | Some f \<Rightarrow> f);
                         st' = st\<lparr>effects := effects st @ [CreateWorkbook fname]\<rparr>
                     in if workbook_error env then Inr ([], st') else Inr (fname, st'))))"







section \<open>What a run was given to process\<close>

text \<open>The pairs of market key and outcome that a successful run walks through: those
  of every answer the retry loop accepted.\<close>

definition market_pairs :: "market \<Rightarrow> (string \<times> outcome) list" where
  "market_pairs mk =
     (case key mk of None \<Rightarrow> [] | Some k \<Rightarrow> map (Pair k) (dict_get (outcomes mk) []))"

definition bookmaker_pairs :: "bookmaker_entry \<Rightarrow> (string \<times> outcome) list" where
  "bookmaker_pairs bm = concat (map market_pairs (dict_get (markets bm) []))"

definition response_pairs :: "props_response \<Rightarrow> (string \<times> outcome) list" where
  "response_pairs r = concat (map bookmaker_pairs (dict_get (resp_bookmakers r) []))"

definition event_pairs :: "event \<times> replies \<Rightarrow> (string \<times> outcome) list" where
  "event_pairs x =
     (case fst (fetch_with_retry [] (snd x) []) of
        None \<Rightarrow> []
      | Some r \<Rightarrow> if truthy (Some r) then response_pairs r else [])"

definition run_pairs :: "(event \<times> replies) list \<Rightarrow> (string \<times> outcome) list" where
  "run_pairs events = concat (map event_pairs events)"

definition recognized :: "string \<times> outcome \<Rightarrow> bool" where
  "recognized x \<longleftrightarrow>
     fst x \<in> set prop_categories \<and>
     (case name (snd x) of
        None \<Rightarrow> False
      | Some nm \<Rightarrow> lower nm = ''over'' \<or> lower nm = ''under'')"

definition buckets_sum :: "fetcher \<Rightarrow> nat" where
  "buckets_sum st = buckets_total (over_props st) + buckets_total (under_props st)"


text \<open>A reply that makes the retry loop go on: an exception, \<^verbatim>\<open>None\<close>, or an empty
  dictionary.\<close>

definition reply_fails :: "props_response http_result \<Rightarrow> bool" where
  "reply_fails reply =
     (case reply of HttpOk r \<Rightarrow> \<not> truthy (Some r) | RequestException \<Rightarrow> True
      | OtherException \<Rightarrow> True)"

definition fetch_fails :: "replies \<Rightarrow> bool" where
  "fetch_fails net = list_all (\<lambda>retry. reply_fails (net retry)) [0..<3]"

text \<open>The effects of the fetch of one event, and effect lists joined by a separator.\<close>

definition fetch_effects :: "event \<times> replies \<Rightarrow> effect list" where
  "fetch_effects x =
     (case event_id (fst x) of
        None \<Rightarrow> []
      | Some eid \<Rightarrow> snd (fetch_with_retry eid (snd x) []))"

fun join :: "'a list \<Rightarrow> 'a list list \<Rightarrow> 'a list" where
  "join sep [] = []"
| "join sep [x] = x"
| "join sep (x # y # ys) = x @ sep @ join sep (y # ys)"

text \<open>The props that a list of outcomes normalises to, an outcome that has the two
  subscripted keys, the exceptions that are a \<^verbatim>\<open>KeyError\<close>, and how a loop over
  events ended: the exception that left it, if any, and the fetcher as it stands.\<close>

definition normalize_all ::
  "game_vars \<Rightarrow> bookmaker_entry \<Rightarrow> string \<Rightarrow> market \<Rightarrow> string \<Rightarrow> outcome list \<Rightarrow> prop_data list" where
  "normalize_all gv bm bookmaker_name mk market_key ocs =
     concat (map (\<lambda>oc. case make_prop_data gv bm bookmaker_name mk market_key oc of
                          Inl e \<Rightarrow> []
                        | Inr pd \<Rightarrow> [pd]) ocs)"

definition has_required :: "outcome \<Rightarrow> bool" where
  "has_required oc \<longleftrightarrow> name oc \<noteq> None \<and> price oc \<noteq> None"




section \<open>Sample inputs\<close>

text \<open>The game, the outcomes and the answer of the scenario: one event, away team A at
  home team B, and a market \<^verbatim>\<open>batter_hits\<close> with an Over and an Under for Player X.\<close>

definition ex_game :: game_vars where
  "ex_game = \<lparr>gv_event_id = ''e1'', gv_home_team = ''B'', gv_away_team = ''A'',
               gv_commence_time = ''2025-07-01T23:05:00Z''\<rparr>"

definition ex_over :: outcome where
  "ex_over = \<lparr>description = Some ''Player X'', name = Some ''Over'', point = Some (3 / 2),
               price = Some (- 120)\<rparr>"

definition ex_under :: outcome where
  "ex_under = \<lparr>description = Some ''Player X'', name = Some ''Under'', point = Some (3 / 2),
                price = Some 100\<rparr>"

definition ex_no_price :: outcome where
  "ex_no_price = \<lparr>description = Some ''Player Y'', name = Some ''Over'', point = Some (1 / 2),
                   price = None\<rparr>"

definition ex_bare :: outcome where
  "ex_bare = \<lparr>description = None, name = Some ''Yes'', point = None, price = Some 250\<rparr>"

definition ex_market :: market where
  "ex_market = \<lparr>key = Some ''batter_hits'', mk_last_update = Some ''2025-07-01T20:00:00Z'',
                 outcomes = Some [ex_over, ex_under]\<rparr>"

definition ex_bookmaker :: bookmaker_entry where
  "ex_bookmaker = \<lparr>title = Some ''BookA'', bm_last_update = None, markets = Some [ex_market]\<rparr>"

definition ex_prop :: prop_data where
  "ex_prop = \<lparr>Event_ID = ''e1'', Game = ''A @ B'', Game_Time = ''2025-07-01T23:05:00Z'',
               Category = ''batter_hits'', Player = ''Player X'', Bet_Type = ''Over'',
               Line = JNum (3 / 2), Odds = - 120, Bookmaker = ''BookA'',
               Last_Update = ''2025-07-01T20:00:00Z''\<rparr>"

definition ex_event :: event where
  "ex_event = \<lparr>event_id = Some ''e1'', home_team = Some ''B'', away_team = Some ''A'',
                commence_time = Some ''2025-07-01T23:05:00Z''\<rparr>"

definition ex_event2 :: event where
  "ex_event2 = \<lparr>event_id = Some ''e2'', home_team = Some ''D'', away_team = Some ''C'',
                 commence_time = Some ''2025-07-02T01:10:00Z''\<rparr>"

definition ex_response :: props_response where
  "ex_response = \<lparr>has_other_keys = True, resp_bookmakers = Some [ex_bookmaker]\<rparr>"

definition ex_env :: environment where
  "ex_env = \<lparr>api_key = Some ''k'',
             listing = HttpOk [(ex_event, \<lambda>retry. HttpOk ex_response)],
             workbook_error = False, clock = ''20250701_1200''\<rparr>"

definition ex_events :: "(event \<times> replies) list" where
  "ex_events = [(ex_event, \<lambda>retry. HttpOk ex_response), (ex_event2, \<lambda>retry. RequestException)]"

definition ex_start :: run where
  "ex_start = \<lparr>self = reset, events_summary = [], effects = [GetEvents]\<rparr>"

definition ex_market_bad :: market where
  "ex_market_bad = \<lparr>key = Some ''batter_hits'', mk_last_update = None,
                     outcomes = Some [ex_over, ex_no_price, ex_under]\<rparr>"

definition ex_no_name :: outcome where
  "ex_no_name = \<lparr>description = Some ''Player Z'', name = None, point = Some (5 / 2),
                  price = Some 115\<rparr>"






definition ex_walks :: outcome where
  "ex_walks = \<lparr>description = Some ''Player X'', name = Some ''Over'', point = Some (1 / 2),
                price = Some 140\<rparr>"


section \<open>Properties of the player aggregate\<close>

lemma props_of_process:
  "props_of (process_player_data n cat pd up) m =
     (if m = n then props_of up n @ [make_prop_info cat pd] else props_of up m)"
  by (simp add: props_of_def process_player_data_def new_player_def Let_def split: option.splits)

lemma props_len_process:
  "props_len (process_player_data n cat pd up) m =
     (if m = n then Suc (props_len up n) else props_len up m)"
  by (simp add: props_len_def process_player_data_def new_player_def Let_def split: option.splits)

lemma props_len_ingest_all:
  "props_len (ingest_all calls up) m = props_len up m + ingested_for m calls"
proof (induction calls arbitrary: up)
  case Nil
  show ?case by (simp add: ingested_for_def)
next
  case (Cons c calls)
  obtain n cat pd where c: "c = (n, cat, pd)" by (cases c)
  show ?case
    using Cons.IH [of "process_player_data n cat pd up"]
    by (simp add: c props_len_process ingested_for_def)
qed

lemma entry_consistent_step:
  assumes "entry_consistent e"
  shows "entry_consistent
           (e\<lparr>categories := insert cat (categories e),
              props := props e @ [make_prop_info cat pd],
              games := insert (Game pd) (games e),
              bookmakers := insert (Bookmaker pd) (bookmakers e)\<rparr>)"
  using assms by (auto simp: entry_consistent_def make_prop_info_def)

lemma entry_consistent_new: "entry_consistent new_player"
  by (simp add: entry_consistent_def new_player_def)

lemma players_consistent_process:
  assumes "players_consistent up"
  shows "players_consistent (process_player_data n cat pd up)"
proof -
  have start: "entry_consistent (case up n of None \<Rightarrow> new_player | Some e \<Rightarrow> e)"
    using assms
    by (auto simp: players_consistent_def ran_def entry_consistent_new split: option.splits)
  have "entry_consistent e'" if "process_player_data n cat pd up m = Some e'" for m e'
  proof (cases "m = n")
    case True
    then show ?thesis
      using that entry_consistent_step [OF start, where cat = cat and pd = pd]
      by (auto simp: process_player_data_def Let_def)
  next
    case False
    then have "up m = Some e'"
      using that by (simp add: process_player_data_def Let_def)
    then show ?thesis
      using assms by (auto simp: players_consistent_def ran_def)
  qed
  then show ?thesis
    by (auto simp: players_consistent_def ran_def)
qed

lemma players_consistent_ingest_all:
  "players_consistent up \<Longrightarrow> players_consistent (ingest_all calls up)"
proof (induction calls arbitrary: up)
  case Nil
  then show ?case by simp
next
  case (Cons c calls)
  obtain n cat pd where c: "c = (n, cat, pd)" by (cases c)
  show ?case
    using Cons.IH [OF players_consistent_process [OF Cons.prems]]
    by (simp add: c)
qed

section \<open>Counting what reaches the buckets\<close>

lemma distinct_prop_categories: "distinct prop_categories"
  by (simp add: prop_categories_def)

lemma dom_empty_buckets: "dom empty_buckets = set prop_categories"
  by (simp add: empty_buckets_def dom_map_of_conv_image_fst image_image)

lemma bucket_len_empty_gen: "bucket_len (map_of (map (\<lambda>c. (c, [])) cs)) c = 0"
  by (induction cs) (simp_all add: bucket_len_def)

lemma buckets_total_empty: "buckets_total empty_buckets = 0"
  by (simp add: buckets_total_def empty_buckets_def bucket_len_empty_gen)

lemma sum_list_same:
  "k \<notin> set cs \<Longrightarrow> (\<And>c. c \<noteq> k \<Longrightarrow> f c = g c) \<Longrightarrow>
     sum_list (map f cs) = (sum_list (map g cs) :: nat)"
  by (induction cs) auto

lemma sum_list_bump:
  "distinct cs \<Longrightarrow> k \<in> set cs \<Longrightarrow> f k = Suc (g k) \<Longrightarrow> (\<And>c. c \<noteq> k \<Longrightarrow> f c = g c) \<Longrightarrow>
     sum_list (map f cs) = Suc (sum_list (map g cs))"
proof (induction cs)
  case Nil
  then show ?case by simp
next
  case (Cons c cs)
  show ?case
  proof (cases "c = k")
    case True
    then have "k \<notin> set cs" using Cons.prems by simp
    then have "sum_list (map f cs) = sum_list (map g cs)"
      using Cons.prems(4) by (rule sum_list_same)
    then show ?thesis using True Cons.prems(3) by simp
  next
    case False
    then show ?thesis using Cons by simp
  qed
qed

lemma buckets_total_append:
  assumes "k \<in> set prop_categories" "b k = Some l"
  shows "buckets_total (b(k \<mapsto> l @ [pd])) = Suc (buckets_total b)"
  unfolding buckets_total_def
  by (rule sum_list_bump [OF distinct_prop_categories assms(1)])
     (simp_all add: bucket_len_def assms(2))


lemma route_count:
  assumes "route mkey oc pd st = Inr st'" "buckets_ok st"
  shows "buckets_ok st' \<and> unique_players st' = unique_players st \<and>
         buckets_sum st' = buckets_sum st + (if recognized (mkey, oc) then 1 else 0)"
proof (cases "mkey \<in> set prop_categories")
  case False
  then show ?thesis using assms by (simp add: route_def recognized_def)
next
  case True
  obtain nm where nm: "name oc = Some nm"
    using assms(1) True by (cases "name oc") (simp_all add: route_def subscript_def)
  consider (over) "lower nm = ''over''" | (under) "lower nm \<noteq> ''over''" "lower nm = ''under''"
    | (neither) "lower nm \<noteq> ''over''" "lower nm \<noteq> ''under''" by blast
  then show ?thesis
  proof cases
    case over
    obtain l where l: "over_props st mkey = Some l"
      using assms(2) True by (auto simp: buckets_ok_def)
    have st': "st' = st\<lparr>over_props := (over_props st)(mkey \<mapsto> l @ [pd])\<rparr>"
      using assms(1) True nm over l by (simp add: route_def subscript_def bucket_append_def)
    have "dom ((over_props st)(mkey \<mapsto> l @ [pd])) = set prop_categories"
      using assms(2) True by (auto simp: buckets_ok_def)
    then show ?thesis
      using assms(2) True nm over l buckets_total_append [where b = "over_props st" and pd = pd, OF True l]
      by (simp add: st' buckets_ok_def buckets_sum_def recognized_def)
  next
    case under
    obtain l where l: "under_props st mkey = Some l"
      using assms(2) True by (auto simp: buckets_ok_def)
    have st': "st' = st\<lparr>under_props := (under_props st)(mkey \<mapsto> l @ [pd])\<rparr>"
      using assms(1) True nm under l by (simp add: route_def subscript_def bucket_append_def)
    have "dom ((under_props st)(mkey \<mapsto> l @ [pd])) = set prop_categories"
      using assms(2) True by (auto simp: buckets_ok_def)
    then show ?thesis
      using assms(2) True nm under l buckets_total_append [where b = "under_props st" and pd = pd, OF True l]
      by (simp add: st' buckets_ok_def buckets_sum_def recognized_def)
  next
    case neither
    then show ?thesis
      using assms True nm by (simp add: route_def subscript_def recognized_def)
  qed
qed

lemma process_outcome_count:
  assumes "process_outcome gv bm bn mk mkey oc st = Inr st'" "buckets_ok st"
  shows "buckets_ok st' \<and>
         buckets_sum st' = buckets_sum st + (if recognized (mkey, oc) then 1 else 0)"
proof -
  obtain pd where pd: "make_prop_data gv bm bn mk mkey oc = Inr pd"
    using assms(1) by (cases "make_prop_data gv bm bn mk mkey oc") (simp_all add: process_outcome_def)
  let ?st1 = "st\<lparr>unique_players := process_player_data (Player pd) mkey pd (unique_players st)\<rparr>"
  have r: "route mkey oc pd ?st1 = Inr st'"
    using assms(1) pd by (simp add: process_outcome_def)
  have ok1: "buckets_ok ?st1" using assms(2) by (simp add: buckets_ok_def)
  have "buckets_sum ?st1 = buckets_sum st" by (simp add: buckets_sum_def)
  then show ?thesis using route_count [OF r ok1] by simp
qed

lemma outcomes_loop_count:
  "outcomes_loop gv bm bn mk mkey ocs st = Inr st' \<Longrightarrow> buckets_ok st \<Longrightarrow>
     buckets_ok st' \<and>
     buckets_sum st' = buckets_sum st + length (filter recognized (map (Pair mkey) ocs))"
proof (induction ocs arbitrary: st)
  case Nil
  then show ?case by simp
next
  case (Cons oc ocs)
  obtain st1 where s1: "process_outcome gv bm bn mk mkey oc st = Inr st1"
    using Cons.prems(1) by (cases "process_outcome gv bm bn mk mkey oc st") simp_all
  have rest: "outcomes_loop gv bm bn mk mkey ocs st1 = Inr st'"
    using Cons.prems(1) s1 by simp
  note a = process_outcome_count [OF s1 Cons.prems(2)]
  note b = Cons.IH [OF rest conjunct1 [OF a]]
  show ?case using a b by simp
qed

lemma markets_loop_count:
  "markets_loop gv bm bn mks st = Inr st' \<Longrightarrow> buckets_ok st \<Longrightarrow>
     buckets_ok st' \<and>
     buckets_sum st' = buckets_sum st + length (filter recognized (concat (map market_pairs mks)))"
proof (induction mks arbitrary: st)
  case Nil
  then show ?case by simp
next
  case (Cons mk mks)
  obtain mkey where k: "key mk = Some mkey"
    using Cons.prems(1) by (cases "key mk") (simp_all add: subscript_def)
  obtain st1 where s1: "outcomes_loop gv bm bn mk mkey (dict_get (outcomes mk) []) st = Inr st1"
    using Cons.prems(1) k
    by (cases "outcomes_loop gv bm bn mk mkey (dict_get (outcomes mk) []) st")
       (simp_all add: subscript_def)
  have rest: "markets_loop gv bm bn mks st1 = Inr st'"
    using Cons.prems(1) k s1 by (simp add: subscript_def)
  note a = outcomes_loop_count [OF s1 Cons.prems(2)]
  note b = Cons.IH [OF rest conjunct1 [OF a]]
  show ?case using a b k by (simp add: market_pairs_def)
qed

lemma bookmakers_loop_count:
  "bookmakers_loop gv bms st = Inr st' \<Longrightarrow> buckets_ok st \<Longrightarrow>
     buckets_ok st' \<and>
     buckets_sum st' = buckets_sum st + length (filter recognized (concat (map bookmaker_pairs bms)))"
proof (induction bms arbitrary: st)
  case Nil
  then show ?case by simp
next
  case (Cons bm bms)
  obtain bn where k: "title bm = Some bn"
    using Cons.prems(1) by (cases "title bm") (simp_all add: subscript_def)
  obtain st1 where s1: "markets_loop gv bm bn (dict_get (markets bm) []) st = Inr st1"
    using Cons.prems(1) k
    by (cases "markets_loop gv bm bn (dict_get (markets bm) []) st")
       (simp_all add: subscript_def)
  have rest: "bookmakers_loop gv bms st1 = Inr st'"
    using Cons.prems(1) k s1 by (simp add: subscript_def)
  note a = markets_loop_count [OF s1 Cons.prems(2)]
  note b = Cons.IH [OF rest conjunct1 [OF a]]
  show ?case using a b by (simp add: bookmaker_pairs_def)
qed

lemma retry_loop_fst:
  "fst (retry_loop m eid net rs pd tr) = fst (retry_loop m eid' net rs pd tr')"
  by (induction rs arbitrary: pd tr tr') (auto split: sum.splits)

lemma retry_loop_snd:
  "snd (retry_loop m eid net rs pd tr) = tr @ snd (retry_loop m eid net rs pd [])"
proof (induction rs arbitrary: pd tr)
  case Nil
  show ?case by simp
next
  case (Cons r rs)
  show ?case
    using Cons.IH [of _ "tr @ [GetEventProps eid]"] Cons.IH [of _ "[GetEventProps eid]"]
      Cons.IH [of _ "tr @ [GetEventProps eid, Sleep 2]"] Cons.IH [of _ "[GetEventProps eid, Sleep 2]"]
    by (auto split: sum.splits)
qed

lemma read_event_id: "read_event ev = Inr gv \<Longrightarrow> event_id ev = Some (gv_event_id gv)"
  by (auto simp: read_event_def subscript_def split: option.splits)

lemma process_event_ok:
  assumes "process_event ev net st = Inr st'" "buckets_ok (self st)"
  shows "buckets_ok (self st') \<and>
         buckets_sum (self st') =
           buckets_sum (self st) + length (filter recognized (event_pairs (ev, net))) \<and>
         effects st' = effects st @ fetch_effects (ev, net) \<and>
         length (events_summary st') = Suc (length (events_summary st))"
proof -
  obtain gv where gv: "read_event ev = Inr gv"
    using assms(1) by (cases "read_event ev") (simp_all add: process_event_def)
  let ?eid = "gv_event_id gv"
  obtain pd tr where f: "fetch_with_retry ?eid net (effects st) = (pd, tr)"
    by (cases "fetch_with_retry ?eid net (effects st)")
  have pd: "fst (fetch_with_retry [] net []) = pd"
    using f retry_loop_fst [of 3 "[]" net "[0..<3]" None "[]" ?eid "effects st"]
    by (simp add: fetch_with_retry_def)
  have tr: "tr = effects st @ fetch_effects (ev, net)"
    using f retry_loop_snd [of 3 ?eid net "[0..<3]" None "effects st"] read_event_id [OF gv]
    by (simp add: fetch_with_retry_def fetch_effects_def)
  show ?thesis
  proof (cases "truthy pd")
    case False
    then have "st' = st\<lparr>events_summary := events_summary st @ [make_event_row gv], effects := tr\<rparr>"
      using assms(1) gv f by (simp add: process_event_def)
    moreover have "event_pairs (ev, net) = []"
      using False pd by (auto simp: event_pairs_def split: option.splits)
    ultimately show ?thesis using assms(2) tr by simp
  next
    case True
    then obtain r where r: "pd = Some r" by (cases pd) (simp_all add: truthy_def)
    obtain f' where b: "bookmakers_loop gv (dict_get (resp_bookmakers r) []) (self st) = Inr f'"
      using assms(1) gv f True r
      by (cases "bookmakers_loop gv (dict_get (resp_bookmakers r) []) (self st)")
         (simp_all add: process_event_def)
    have st': "st' = st\<lparr>self := f', events_summary := events_summary st @ [make_event_row gv],
                          effects := tr\<rparr>"
      using assms(1) gv f True r b by (simp add: process_event_def)
    have ep: "event_pairs (ev, net) = concat (map bookmaker_pairs (dict_get (resp_bookmakers r) []))"
      using True pd r by (simp add: event_pairs_def response_pairs_def)
    show ?thesis
      using bookmakers_loop_count [OF b assms(2)] tr by (simp add: st' ep)
  qed
qed

lemma events_loop_ok:
  "events_loop d n i es st = Inr st' \<Longrightarrow> buckets_ok (self st) \<Longrightarrow> i + length es = Suc n \<Longrightarrow>
     buckets_ok (self st') \<and>
     buckets_sum (self st') = buckets_sum (self st) + length (filter recognized (run_pairs es)) \<and>
     effects st' = effects st @ join [Sleep d] (map fetch_effects es) \<and>
     length (events_summary st') = length (events_summary st) + length es"
proof (induction es arbitrary: st i)
  case Nil
  then show ?case by (simp add: run_pairs_def)
next
  case (Cons x es)
  obtain ev net where x: "x = (ev, net)" by (cases x)
  obtain st1 where s1: "process_event ev net st = Inr st1"
    using Cons.prems(1) x by (cases "process_event ev net st") simp_all
  note a = process_event_ok [OF s1 Cons.prems(2)]
  show ?case
  proof (cases es)
    case Nil
    then have "\<not> i < n" using Cons.prems(3) by simp
    then have "st' = st1" using Cons.prems(1) x s1 Nil by simp
    then show ?thesis using a x Nil by (simp add: run_pairs_def)
  next
    case (Cons y ys)
    then have lt: "i < n" using Cons.prems(3) by simp
    let ?st2 = "st1\<lparr>effects := effects st1 @ [Sleep d]\<rparr>"
    have rest: "events_loop d n (Suc i) es ?st2 = Inr st'"
      using Cons.prems(1) x s1 lt by simp
    have ok2: "buckets_ok (self ?st2)" using a by simp
    have len: "Suc i + length es = Suc n" using Cons.prems(3) by simp
    note b = Cons.IH [OF rest ok2 len]
    show ?thesis using a b x Cons by (simp add: run_pairs_def)
  qed
qed

section \<open>The run: buckets, effects and sample runs\<close>

lemma buckets_ok_reset: "buckets_ok reset"
  by (simp add: buckets_ok_def reset_def dom_empty_buckets)

lemma buckets_sum_reset: "buckets_sum reset = 0"
  by (simp add: buckets_sum_def reset_def buckets_total_empty)

lemma length_filter_eq_iff: "length (filter P xs) = length xs \<longleftrightarrow> (\<forall>x \<in> set xs. P x)"
proof (induction xs)
  case Nil
  show ?case by simp
next
  case (Cons x xs)
  show ?case
  proof (cases "P x")
    case True
    then show ?thesis using Cons by simp
  next
    case False
    have "length (filter P xs) \<le> length xs" by (rule length_filter_le)
    then have "length (filter P xs) \<noteq> Suc (length xs)" by arith
    then show ?thesis using False by simp
  qed
qed

lemma route_shape:
  assumes "buckets_ok st" "name oc = Some nm"
  shows "route mkey oc pd st =
     Inr (st\<lparr>over_props :=
               (if mkey \<in> set prop_categories \<and> lower nm = ''over''
                then (over_props st)(mkey \<mapsto> bucket_list (over_props st) mkey @ [pd])
                else over_props st),
             under_props :=
               (if mkey \<in> set prop_categories \<and> lower nm = ''under''
                then (under_props st)(mkey \<mapsto> bucket_list (under_props st) mkey @ [pd])
                else under_props st)\<rparr>)"
proof (cases "mkey \<in> set prop_categories")
  case False
  then show ?thesis by (simp add: route_def)
next
  case True
  obtain lo where lo: "over_props st mkey = Some lo"
    using assms(1) True by (auto simp: buckets_ok_def)
  obtain lu where lu: "under_props st mkey = Some lu"
    using assms(1) True by (auto simp: buckets_ok_def)
  show ?thesis
    using True assms(2) lo lu
    by (simp add: route_def subscript_def bucket_append_def bucket_list_def)
qed

lemma ex_run:
  "\<exists>fname st. fetch_all_props_to_excel ex_env None (3 / 2) None = Inr (fname, st)"
  by (simp add: fetch_all_props_to_excel_def ex_env_def get_mlb_events_def limit_events_def
      Let_def process_event_def read_event_def ex_event_def subscript_def fetch_with_retry_def
      upt_rec get_event_props_def truthy_def ex_response_def dict_get_def ex_bookmaker_def
      ex_market_def process_outcome_def make_prop_data_def ex_over_def ex_under_def route_def
      prop_categories_def lower_def lower_char_def bucket_append_def reset_def empty_buckets_def
      split: sum.splits)

lemma ex_run_pairs:
  "run_pairs (limit_events None (listed ex_env)) = [(''batter_hits'', ex_over), (''batter_hits'', ex_under)]"
  by (simp add: run_pairs_def limit_events_def listed_def ex_env_def get_mlb_events_def
      event_pairs_def fetch_with_retry_def upt_rec get_event_props_def truthy_def ex_response_def
      response_pairs_def dict_get_def ex_bookmaker_def bookmaker_pairs_def ex_market_def
      market_pairs_def)

lemma process_event_effects:
  assumes "process_event ev net st = Inr st'"
  shows "effects st' = effects st @ fetch_effects (ev, net)"
proof -
  obtain gv where gv: "read_event ev = Inr gv"
    using assms by (cases "read_event ev") (simp_all add: process_event_def)
  let ?eid = "gv_event_id gv"
  obtain pd tr where f: "fetch_with_retry ?eid net (effects st) = (pd, tr)"
    by (cases "fetch_with_retry ?eid net (effects st)")
  have tr: "tr = effects st @ fetch_effects (ev, net)"
    using f retry_loop_snd [of 3 ?eid net "[0..<3]" None "effects st"] read_event_id [OF gv]
    by (simp add: fetch_with_retry_def fetch_effects_def)
  have "effects st' = tr"
    using assms gv f
    by (auto simp: process_event_def Let_def split: if_splits option.splits sum.splits)
  then show ?thesis using tr by simp
qed

lemma events_loop_effects:
  "events_loop d n i es st = Inr st' \<Longrightarrow> i + length es = Suc n \<Longrightarrow>
     effects st' = effects st @ join [Sleep d] (map fetch_effects es)"
proof (induction es arbitrary: st i)
  case Nil
  then show ?case by simp
next
  case (Cons x es)
  obtain ev net where x: "x = (ev, net)" by (cases x)
  obtain st1 where s1: "process_event ev net st = Inr st1"
    using Cons.prems(1) x by (cases "process_event ev net st") simp_all
  note a = process_event_effects [OF s1]
  show ?case
  proof (cases es)
    case Nil
    then have "\<not> i < n" using Cons.prems(2) by simp
    then have "st' = st1" using Cons.prems(1) x s1 Nil by simp
    then show ?thesis using a x Nil by simp
  next
    case tail: (Cons y ys)
    then have lt: "i < n" using Cons.prems(2) by simp
    let ?st2 = "st1\<lparr>effects := effects st1 @ [Sleep d]\<rparr>"
    have rest: "events_loop d n (Suc i) es ?st2 = Inr st'"
      using Cons.prems(1) x s1 lt by simp
    have len: "Suc i + length es = Suc n" using Cons.prems(2) by simp
    note b = Cons.IH [OF rest len]
    show ?thesis using a b x tail by simp
  qed
qed

lemma process_event_reads:
  "process_event ev net st = Inr st' \<Longrightarrow> \<exists>i. event_id ev = Some i"
  by (cases "read_event ev") (auto simp: process_event_def dest: read_event_id)

lemma events_loop_reads:
  "events_loop d n i es st = Inr st' \<Longrightarrow> \<forall>x \<in> set es. \<exists>eid. event_id (fst x) = Some eid"
proof (induction es arbitrary: st i)
  case Nil
  then show ?case by simp
next
  case (Cons x es)
  obtain ev net where x: "x = (ev, net)" by (cases x)
  obtain st1 where s1: "process_event ev net st = Inr st1"
    using Cons.prems(1) x by (cases "process_event ev net st") simp_all
  have "\<exists>st2. events_loop d n (Suc i) es st2 = Inr st'"
    using Cons.prems(1) x s1 by (auto split: if_splits)
  then show ?case
    using Cons.IH process_event_reads [OF s1] x by auto
qed

lemma ex_loop: "\<exists>st'. events_loop (3 / 2) (length ex_events) 1 ex_events ex_start = Inr st'"
  by (simp add: ex_events_def ex_start_def
      Let_def process_event_def read_event_def ex_event_def ex_event2_def subscript_def
      fetch_with_retry_def
      upt_rec get_event_props_def truthy_def ex_response_def dict_get_def ex_bookmaker_def
      ex_market_def process_outcome_def make_prop_data_def ex_over_def ex_under_def route_def
      prop_categories_def lower_def lower_char_def bucket_append_def reset_def empty_buckets_def
      split: sum.splits)

lemma join_snoc: "join sep (xs @ [x]) = concat (map (\<lambda>y. y @ sep) xs) @ x"
proof (induction xs)
  case Nil
  show ?case by simp
next
  case (Cons a xs)
  then show ?case by (cases xs) simp_all
qed

lemma fetch_effects_last:
  assumes "event_id (fst x) = Some eid"
  shows "fetch_effects x \<noteq> [] \<and> last (fetch_effects x) = GetEventProps eid"
  using assms
  by (simp add: fetch_effects_def fetch_with_retry_def upt_rec split: sum.splits)

section \<open>Failing fetches and malformed outcomes\<close>

lemma outcomes_loop_append:
  "outcomes_loop gv bm bn mk mkey (xs @ ys) st =
     (case outcomes_loop gv bm bn mk mkey xs st of
        Inl e \<Rightarrow> Inl e
      | Inr st1 \<Rightarrow> outcomes_loop gv bm bn mk mkey ys st1)"
  by (induction xs arbitrary: st) (simp_all split: sum.splits)

lemma fetch_fails_not_truthy:
  "fetch_fails net \<Longrightarrow> \<not> truthy (fst (fetch_with_retry eid net tr))"
proof -
  have n: "\<not> truthy None" by (simp add: truthy_def)
  show "fetch_fails net \<Longrightarrow> \<not> truthy (fst (fetch_with_retry eid net tr))"
    by (auto simp: fetch_fails_def fetch_with_retry_def upt_rec reply_fails_def
        get_event_props_def n split: http_result.splits)
qed

lemma process_event_failed:
  assumes "fetch_fails net" "read_event ev = Inr gv"
  shows "\<exists>st'. process_event ev net st = Inr st' \<and> self st' = self st"
proof -
  obtain pd tr where f: "fetch_with_retry (gv_event_id gv) net (effects st) = (pd, tr)"
    by (cases "fetch_with_retry (gv_event_id gv) net (effects st)")
  have "\<not> truthy pd"
    using fetch_fails_not_truthy [OF assms(1), of "gv_event_id gv" "effects st"] f by simp
  then show ?thesis
    using assms(2) f by (simp add: process_event_def)
qed


lemma fetch_calls_at_most_three:
  "count_list (snd (fetch_with_retry eid net [])) (GetEventProps eid) \<in> {1, 2, 3}"
  by (simp add: fetch_with_retry_def upt_rec split: sum.splits)

lemma failed_event_is_skipped:
  assumes "fetch_fails net" "read_event ev = Inr gv"
  shows "\<exists>st1. process_event ev net st = Inr st1 \<and> self st1 = self st \<and>
           events_loop d n i ((ev, net) # rest) st =
             events_loop d n (Suc i) rest
               (if i < n then st1\<lparr>effects := effects st1 @ [Sleep d]\<rparr> else st1)"
proof -
  obtain st1 where s1: "process_event ev net st = Inr st1" "self st1 = self st"
    using process_event_failed [OF assms] by blast
  then show ?thesis by simp
qed

section \<open>What the loops store, how they end, and how the run ends\<close>

lemma process_outcome_step:
  assumes "buckets_ok st" "name oc = Some nm" "price oc = Some pr"
  shows "\<exists>pd st'.
           make_prop_data gv bm bn mk mkey oc = Inr pd \<and> Bet_Type pd = nm \<and>
           process_outcome gv bm bn mk mkey oc st = Inr st' \<and> buckets_ok st' \<and>
           unique_players st' = process_player_data (Player pd) mkey pd (unique_players st) \<and>
           over_props st' =
             (if mkey \<in> set prop_categories \<and> lower nm = ''over''
              then (over_props st)(mkey \<mapsto> bucket_list (over_props st) mkey @ [pd])
              else over_props st) \<and>
           under_props st' =
             (if mkey \<in> set prop_categories \<and> lower nm = ''under''
              then (under_props st)(mkey \<mapsto> bucket_list (under_props st) mkey @ [pd])
              else under_props st)"
proof -
  obtain pd where pd: "make_prop_data gv bm bn mk mkey oc = Inr pd" and bt: "Bet_Type pd = nm"
    using assms(2,3) by (simp add: make_prop_data_def subscript_def)
  let ?st1 = "st\<lparr>unique_players := process_player_data (Player pd) mkey pd (unique_players st)\<rparr>"
  have ok1: "buckets_ok ?st1" using assms(1) by (simp add: buckets_ok_def)
  note r = route_shape [OF ok1 assms(2), of mkey pd]
  have po: "process_outcome gv bm bn mk mkey oc st = route mkey oc pd ?st1"
    using pd by (simp add: process_outcome_def)
  have ok2: "buckets_ok (state_of (route mkey oc pd ?st1))"
    using route_count [OF r ok1] r by (simp add: state_of_def)
  show ?thesis
    using pd bt po r ok2 by (simp add: state_of_def)
qed

lemma bucket_list_upd:
  "bucket_list (b(k \<mapsto> bucket_list b k @ [pd])) c =
     bucket_list b c @ (if c = k then [pd] else [])"
  by (simp add: bucket_list_def)

lemma process_outcome_lists:
  assumes "buckets_ok st" "name oc = Some nm" "price oc = Some pr"
  shows "\<exists>pd st'.
           make_prop_data gv bm bn mk mkey oc = Inr pd \<and>
           process_outcome gv bm bn mk mkey oc st = Inr st' \<and> buckets_ok st' \<and>
           (\<forall>n. props_of (unique_players st') n =
                  props_of (unique_players st) n @
                  (if n = Player pd then [make_prop_info mkey pd] else [])) \<and>
           (\<forall>c. bucket_list (over_props st') c =
                  bucket_list (over_props st) c @
                  (if c = mkey \<and> mkey \<in> set prop_categories \<and> lower (Bet_Type pd) = ''over''
                   then [pd] else [])) \<and>
           (\<forall>c. bucket_list (under_props st') c =
                  bucket_list (under_props st) c @
                  (if c = mkey \<and> mkey \<in> set prop_categories \<and> lower (Bet_Type pd) = ''under''
                   then [pd] else []))"
proof -
  obtain pd st' where
    a: "make_prop_data gv bm bn mk mkey oc = Inr pd" "Bet_Type pd = nm"
       "process_outcome gv bm bn mk mkey oc st = Inr st'" "buckets_ok st'"
    and u: "unique_players st' = process_player_data (Player pd) mkey pd (unique_players st)"
    and o: "over_props st' =
             (if mkey \<in> set prop_categories \<and> lower nm = ''over''
              then (over_props st)(mkey \<mapsto> bucket_list (over_props st) mkey @ [pd])
              else over_props st)"
    and d: "under_props st' =
             (if mkey \<in> set prop_categories \<and> lower nm = ''under''
              then (under_props st)(mkey \<mapsto> bucket_list (under_props st) mkey @ [pd])
              else under_props st)"
    using process_outcome_step [OF assms, of gv bm bn mk mkey] by blast
  have 1: "\<forall>n. props_of (unique_players st') n =
                  props_of (unique_players st) n @
                  (if n = Player pd then [make_prop_info mkey pd] else [])"
    by (simp add: u props_of_process)
  have 2: "\<forall>c. bucket_list (over_props st') c =
                  bucket_list (over_props st) c @
                  (if c = mkey \<and> mkey \<in> set prop_categories \<and> lower (Bet_Type pd) = ''over''
                   then [pd] else [])"
    by (simp add: o a(2) bucket_list_upd)
  have 3: "\<forall>c. bucket_list (under_props st') c =
                  bucket_list (under_props st) c @
                  (if c = mkey \<and> mkey \<in> set prop_categories \<and> lower (Bet_Type pd) = ''under''
                   then [pd] else [])"
    by (simp add: d a(2) bucket_list_upd)
  show ?thesis using a 1 2 3 by blast
qed

lemma outcomes_loop_lists:
  assumes "buckets_ok st" "list_all has_required ocs"
  shows "\<exists>st'.
           outcomes_loop gv bm bn mk mkey ocs st = Inr st' \<and> buckets_ok st' \<and>
           (\<forall>n. props_of (unique_players st') n =
                  props_of (unique_players st) n @
                  map (make_prop_info mkey)
                    (filter (\<lambda>pd. Player pd = n) (normalize_all gv bm bn mk mkey ocs))) \<and>
           (\<forall>c. bucket_list (over_props st') c =
                  bucket_list (over_props st) c @
                  filter (\<lambda>pd. c = mkey \<and> mkey \<in> set prop_categories \<and>
                                lower (Bet_Type pd) = ''over'')
                    (normalize_all gv bm bn mk mkey ocs)) \<and>
           (\<forall>c. bucket_list (under_props st') c =
                  bucket_list (under_props st) c @
                  filter (\<lambda>pd. c = mkey \<and> mkey \<in> set prop_categories \<and>
                                lower (Bet_Type pd) = ''under'')
                    (normalize_all gv bm bn mk mkey ocs))"
  using assms
proof (induction ocs arbitrary: st)
  case Nil
  then show ?case by (simp add: normalize_all_def)
next
  case (Cons oc ocs)
  obtain nm pr where np: "name oc = Some nm" "price oc = Some pr"
    using Cons.prems(2) by (auto simp: has_required_def)
  obtain pd st1 where
    a: "make_prop_data gv bm bn mk mkey oc = Inr pd"
       "process_outcome gv bm bn mk mkey oc st = Inr st1" "buckets_ok st1"
    and p1: "\<forall>n. props_of (unique_players st1) n =
                  props_of (unique_players st) n @
                  (if n = Player pd then [make_prop_info mkey pd] else [])"
    and o1: "\<forall>c. bucket_list (over_props st1) c =
                  bucket_list (over_props st) c @
                  (if c = mkey \<and> mkey \<in> set prop_categories \<and> lower (Bet_Type pd) = ''over''
                   then [pd] else [])"
    and u1: "\<forall>c. bucket_list (under_props st1) c =
                  bucket_list (under_props st) c @
                  (if c = mkey \<and> mkey \<in> set prop_categories \<and> lower (Bet_Type pd) = ''under''
                   then [pd] else [])"
    using process_outcome_lists [OF Cons.prems(1) np, of gv bm bn mk mkey] by blast
  have rest: "list_all has_required ocs" using Cons.prems(2) by simp
  obtain st' where
    b: "outcomes_loop gv bm bn mk mkey ocs st1 = Inr st'" "buckets_ok st'"
    and p2: "\<forall>n. props_of (unique_players st') n =
                  props_of (unique_players st1) n @
                  map (make_prop_info mkey)
                    (filter (\<lambda>pd. Player pd = n) (normalize_all gv bm bn mk mkey ocs))"
    and o2: "\<forall>c. bucket_list (over_props st') c =
                  bucket_list (over_props st1) c @
                  filter (\<lambda>pd. c = mkey \<and> mkey \<in> set prop_categories \<and>
                                lower (Bet_Type pd) = ''over'')
                    (normalize_all gv bm bn mk mkey ocs)"
    and u2: "\<forall>c. bucket_list (under_props st') c =
                  bucket_list (under_props st1) c @
                  filter (\<lambda>pd. c = mkey \<and> mkey \<in> set prop_categories \<and>
                                lower (Bet_Type pd) = ''under'')
                    (normalize_all gv bm bn mk mkey ocs)"
    using Cons.IH [OF a(3) rest] by blast
  have n: "normalize_all gv bm bn mk mkey (oc # ocs) = pd # normalize_all gv bm bn mk mkey ocs"
    using a(1) by (simp add: normalize_all_def)
  have l: "outcomes_loop gv bm bn mk mkey (oc # ocs) st = Inr st'"
    using a(2) b(1) by simp
  have P: "\<forall>n. props_of (unique_players st') n =
                  props_of (unique_players st) n @
                  map (make_prop_info mkey)
                    (filter (\<lambda>pd. Player pd = n) (normalize_all gv bm bn mk mkey (oc # ocs)))"
    using p1 p2 by (auto simp: n)
  have O: "\<forall>c. bucket_list (over_props st') c =
                  bucket_list (over_props st) c @
                  filter (\<lambda>pd. c = mkey \<and> mkey \<in> set prop_categories \<and>
                                lower (Bet_Type pd) = ''over'')
                    (normalize_all gv bm bn mk mkey (oc # ocs))"
    using o1 o2 by (auto simp: n)
  have U: "\<forall>c. bucket_list (under_props st') c =
                  bucket_list (under_props st) c @
                  filter (\<lambda>pd. c = mkey \<and> mkey \<in> set prop_categories \<and>
                                lower (Bet_Type pd) = ''under'')
                    (normalize_all gv bm bn mk mkey (oc # ocs))"
    using u1 u2 by (auto simp: n)
  show ?case using l b(2) P O U by blast
qed

lemma normalize_all_length:
  "list_all has_required ocs \<Longrightarrow> length (normalize_all gv bm bn mk mkey ocs) = length ocs"
  by (induction ocs)
     (auto simp: normalize_all_def has_required_def make_prop_data_def subscript_def)

lemma process_player_data_entry:
  "\<exists>e. process_player_data n cat pd up n = Some e \<and> cat \<in> categories e \<and>
       Game pd \<in> games e \<and> Bookmaker pd \<in> bookmakers e"
  by (simp add: process_player_data_def Let_def)

lemma process_player_data_others:
  "m \<noteq> n \<Longrightarrow> process_player_data n cat pd up m = up m"
  by (simp add: process_player_data_def Let_def)
















section \<open>The claims\<close>

text \<open>
  C5. For every player name, after any sequence of ingests starting from the empty
  dictionary, the length of the player's list of props is the number of ingested props
  with exactly that player name; and ingesting the same prop a second time appends a
  second, equal entry: nothing is deduplicated.
\<close>

theorem props_length_counts_ingests:
  "props_len (ingest_all calls Map.empty) player_name = ingested_for player_name calls \<and>
   props_of (process_player_data player_name cat pd (process_player_data player_name cat pd up))
       player_name =
     props_of up player_name @ [make_prop_info cat pd, make_prop_info cat pd]"
  using props_len_ingest_all [of calls Map.empty player_name]
  by (simp add: props_of_process) (simp add: props_len_def)

text \<open>
  C10. At every point of an ingestion that starts from the empty dictionary, every prop
  in a player's list has its category in the player's set of categories, its game in the
  set of games and its bookmaker in the set of bookmakers; and every single ingest keeps
  this consistency.
\<close>

theorem ingest_preserves_consistency:
  "players_consistent (ingest_all calls Map.empty) \<and>
   (players_consistent up \<longrightarrow> players_consistent (process_player_data player_name cat pd up))"
proof -
  have "players_consistent Map.empty" by (simp add: players_consistent_def)
  then show ?thesis
    using players_consistent_ingest_all players_consistent_process by blast
qed

theorem ingest_preserves_consistency_witness:
  "players_consistent (ingest_all [(''Player X'', ''batter_hits'', ex_prop)] Map.empty) \<and>
   players_consistent
     (process_player_data ''Player X'' ''batter_rbis'' ex_prop
        (ingest_all [(''Player X'', ''batter_hits'', ex_prop)] Map.empty)) \<and>
   map category
     (props_of (process_player_data ''Player X'' ''batter_rbis'' ex_prop
        (ingest_all [(''Player X'', ''batter_hits'', ex_prop)] Map.empty)) ''Player X'') =
     [''batter_hits'', ''batter_rbis'']"
proof -
  note t = ingest_preserves_consistency
    [of "[(''Player X'', ''batter_hits'', ex_prop)]"
        "ingest_all [(''Player X'', ''batter_hits'', ex_prop)] Map.empty"
        "''Player X''" "''batter_rbis''" ex_prop]
  have "map category
     (props_of (process_player_data ''Player X'' ''batter_rbis'' ex_prop
        (ingest_all [(''Player X'', ''batter_hits'', ex_prop)] Map.empty)) ''Player X'') =
     [''batter_hits'', ''batter_rbis'']"
    by (simp add: props_of_process) (simp add: props_of_def make_prop_info_def)
  then show ?thesis using t by blast
qed

text \<open>
  C6. Normalising a raw outcome that has a name and a price gives the record whose player
  is the description (\<^verbatim>\<open>'Unknown'\<close> when absent), whose side is the name, whose line
  is the point (\<^verbatim>\<open>'N/A'\<close> when absent) and whose odds are the price; the price has no
  default, an outcome without it gives no record. The record is given as a function of
  the raw outcome and the variables in scope alone, so normalising the same outcome
  again gives the same record, field for field.
\<close>

theorem normalize_maps_fields:
  "(name oc = Some nm \<and> price oc = Some pr \<longrightarrow>
      (\<exists>pd. make_prop_data gv bm bookmaker_name mk market_key oc = Inr pd \<and>
            Player pd = (case description oc of None \<Rightarrow> ''Unknown'' | Some d \<Rightarrow> d) \<and>
            Bet_Type pd = nm \<and>
            Line pd = (case point oc of None \<Rightarrow> JStr ''N/A'' | Some x \<Rightarrow> JNum x) \<and>
            Odds pd = pr \<and>
            Category pd = market_key \<and> Bookmaker pd = bookmaker_name \<and>
            Event_ID pd = gv_event_id gv \<and> Game pd = matchup gv \<and>
            Game_Time pd = gv_commence_time gv)) \<and>
   (price oc = None \<longrightarrow> (\<exists>e. make_prop_data gv bm bookmaker_name mk market_key oc = Inl e))"
  by (auto simp: make_prop_data_def subscript_def dict_get_def split: option.splits)

theorem normalize_maps_fields_witness:
  "name ex_bare = Some ''Yes'' \<and> price ex_bare = Some 250 \<and>
   (\<exists>pd. make_prop_data ex_game ex_bookmaker ''BookA'' ex_market ''batter_hits'' ex_bare = Inr pd \<and>
         Player pd = ''Unknown'' \<and> Bet_Type pd = ''Yes'' \<and> Line pd = JStr ''N/A'' \<and>
         Odds pd = 250) \<and>
   price ex_no_price = None \<and>
   (\<exists>e. make_prop_data ex_game ex_bookmaker ''BookA'' ex_market ''batter_hits'' ex_no_price = Inl e)"
proof -
  have a: "name ex_bare = Some ''Yes'' \<and> price ex_bare = Some 250" by (simp add: ex_bare_def)
  have b: "price ex_no_price = None" by (simp add: ex_no_price_def)
  have c: "description ex_bare = None" "point ex_bare = None" by (simp_all add: ex_bare_def)
  show ?thesis
    using a b
      normalize_maps_fields [of ex_bare "''Yes''" 250 ex_game ex_bookmaker "''BookA''" ex_market
        "''batter_hits''"]
      normalize_maps_fields [of ex_no_price "''Over''" 0 ex_game ex_bookmaker "''BookA''" ex_market
        "''batter_hits''"]
    by (simp add: c) blast
qed

text \<open>
  C3. An outcome with a name and a price, processed in a state whose bucket dictionaries
  have the twelve categories as keys, is appended to the Over bucket of its market key
  exactly when the key is one of the twelve categories and the name lowers to
  \<^verbatim>\<open>'over'\<close>, and to the Under bucket exactly when the key is one of the twelve and the
  name lowers to \<^verbatim>\<open>'under'\<close>; otherwise both dictionaries stay as they are. In every
  case the player aggregate is updated: the list of props of the outcome's player grows
  by the entry made of the market key, the name, the line, the price, the bookmaker and
  the game, the player's sets hold the market key, the game and the bookmaker, and the
  entries of all other players stay as they are.
\<close>

theorem routed_iff_side_and_category:
  assumes "buckets_ok st" "name oc = Some nm" "price oc = Some pr"
  shows "\<exists>pd st'.
           make_prop_data gv bm bookmaker_name mk market_key oc = Inr pd \<and>
           process_outcome gv bm bookmaker_name mk market_key oc st = Inr st' \<and>
           over_props st' =
             (if market_key \<in> set prop_categories \<and> lower nm = ''over''
              then (over_props st)(market_key \<mapsto> bucket_list (over_props st) market_key @ [pd])
              else over_props st) \<and>
           under_props st' =
             (if market_key \<in> set prop_categories \<and> lower nm = ''under''
              then (under_props st)(market_key \<mapsto> bucket_list (under_props st) market_key @ [pd])
              else under_props st) \<and>
           unique_players st' =
             process_player_data (Player pd) market_key pd (unique_players st) \<and>
           props_of (unique_players st') (Player pd) =
             props_of (unique_players st) (Player pd) @
             [\<lparr>category = market_key, bet_type = nm,
               line = (case point oc of None \<Rightarrow> JStr ''N/A'' | Some x \<Rightarrow> JNum x), odds = pr,
               bookmaker = bookmaker_name, game = matchup gv\<rparr>] \<and>
           (\<exists>e. unique_players st' (Player pd) = Some e \<and> market_key \<in> categories e \<and>
                matchup gv \<in> games e \<and> bookmaker_name \<in> bookmakers e) \<and>
           (\<forall>n. n \<noteq> Player pd \<longrightarrow> unique_players st' n = unique_players st n)"
proof -
  obtain pd st' where
    a: "make_prop_data gv bm bookmaker_name mk market_key oc = Inr pd"
       "process_outcome gv bm bookmaker_name mk market_key oc st = Inr st'"
    and u: "unique_players st' = process_player_data (Player pd) market_key pd (unique_players st)"
    and o: "over_props st' =
             (if market_key \<in> set prop_categories \<and> lower nm = ''over''
              then (over_props st)(market_key \<mapsto> bucket_list (over_props st) market_key @ [pd])
              else over_props st)"
    and d: "under_props st' =
             (if market_key \<in> set prop_categories \<and> lower nm = ''under''
              then (under_props st)(market_key \<mapsto> bucket_list (under_props st) market_key @ [pd])
              else under_props st)"
    using process_outcome_step [OF assms, of gv bm bookmaker_name mk market_key] by blast
  have f: "Game pd = matchup gv" "Bookmaker pd = bookmaker_name"
    "make_prop_info market_key pd =
       \<lparr>category = market_key, bet_type = nm,
        line = (case point oc of None \<Rightarrow> JStr ''N/A'' | Some x \<Rightarrow> JNum x), odds = pr,
        bookmaker = bookmaker_name, game = matchup gv\<rparr>"
    using a(1) assms(2,3)
    by (auto simp: make_prop_data_def subscript_def dict_get_def make_prop_info_def
        split: option.splits)
  have p: "props_of (unique_players st') (Player pd) =
             props_of (unique_players st) (Player pd) @
             [\<lparr>category = market_key, bet_type = nm,
               line = (case point oc of None \<Rightarrow> JStr ''N/A'' | Some x \<Rightarrow> JNum x), odds = pr,
               bookmaker = bookmaker_name, game = matchup gv\<rparr>]"
    by (simp add: u props_of_process f(3))
  have e: "\<exists>e. unique_players st' (Player pd) = Some e \<and> market_key \<in> categories e \<and>
                matchup gv \<in> games e \<and> bookmaker_name \<in> bookmakers e"
    using process_player_data_entry [of "Player pd" market_key pd "unique_players st"]
    by (simp add: u f)
  have r: "\<forall>n. n \<noteq> Player pd \<longrightarrow> unique_players st' n = unique_players st n"
    by (simp add: u process_player_data_others)
  show ?thesis using a u o d p e r by blast
qed

theorem routed_iff_side_and_category_witness:
  "buckets_ok reset \<and> name ex_over = Some ''Over'' \<and> price ex_over = Some (- 120) \<and>
   (\<exists>pd st'.
      make_prop_data ex_game ex_bookmaker ''BookA'' ex_market ''batter_hits'' ex_over = Inr pd \<and>
      process_outcome ex_game ex_bookmaker ''BookA'' ex_market ''batter_hits'' ex_over reset = Inr st' \<and>
      over_props st' = (over_props reset)(''batter_hits'' \<mapsto> [pd]) \<and>
      under_props st' = under_props reset \<and>
      props_of (unique_players st') ''Player X'' =
        [\<lparr>category = ''batter_hits'', bet_type = ''Over'', line = JNum (3 / 2), odds = - 120,
          bookmaker = ''BookA'', game = ''A @ B''\<rparr>]) \<and>
   name ex_walks = Some ''Over'' \<and> price ex_walks = Some 140 \<and>
   (\<exists>pd st'.
      make_prop_data ex_game ex_bookmaker ''BookA'' ex_market ''batter_walks'' ex_walks = Inr pd \<and>
      process_outcome ex_game ex_bookmaker ''BookA'' ex_market ''batter_walks'' ex_walks reset = Inr st' \<and>
      over_props st' = over_props reset \<and>
      under_props st' = under_props reset \<and>
      props_of (unique_players st') ''Player X'' =
        [\<lparr>category = ''batter_walks'', bet_type = ''Over'', line = JNum (1 / 2), odds = 140,
          bookmaker = ''BookA'', game = ''A @ B''\<rparr>])"
proof -
  have n: "name ex_over = Some ''Over''" and p: "price ex_over = Some (- 120)"
    by (simp_all add: ex_over_def)
  have n2: "name ex_walks = Some ''Over''" and p2: "price ex_walks = Some 140"
    by (simp_all add: ex_walks_def)
  have lo: "lower ''Over'' = ''over''" by (simp add: lower_def lower_char_def)
  have c: "''batter_hits'' \<in> set prop_categories" by (simp add: prop_categories_def)
  have c2: "''batter_walks'' \<notin> set prop_categories" by (simp add: prop_categories_def)
  have e: "bucket_list (over_props reset) ''batter_hits'' = []"
    by (simp add: bucket_list_def reset_def empty_buckets_def prop_categories_def)
  have pl: "\<And>mkey oc pd. make_prop_data ex_game ex_bookmaker ''BookA'' ex_market mkey oc = Inr pd \<Longrightarrow>
              description oc = Some ''Player X'' \<Longrightarrow> Player pd = ''Player X''"
    by (auto simp: make_prop_data_def subscript_def dict_get_def split: option.splits)
  have d: "description ex_over = Some ''Player X''" "description ex_walks = Some ''Player X''"
    "point ex_over = Some (3 / 2)" "point ex_walks = Some (1 / 2)"
    by (simp_all add: ex_over_def ex_walks_def)
  have m: "matchup ex_game = ''A @ B''" by (simp add: matchup_def ex_game_def)
  have u0: "props_of (unique_players reset) ''Player X'' = []"
    by (simp add: props_of_def reset_def)
  obtain pd st' where t1:
      "make_prop_data ex_game ex_bookmaker ''BookA'' ex_market ''batter_hits'' ex_over = Inr pd"
      "process_outcome ex_game ex_bookmaker ''BookA'' ex_market ''batter_hits'' ex_over reset = Inr st'"
      "over_props st' = (over_props reset)(''batter_hits'' \<mapsto> [pd])"
      "under_props st' = under_props reset"
      "props_of (unique_players st') (Player pd) =
        props_of (unique_players reset) (Player pd) @
        [\<lparr>category = ''batter_hits'', bet_type = ''Over'', line = JNum (3 / 2), odds = - 120,
          bookmaker = ''BookA'', game = ''A @ B''\<rparr>]"
    using routed_iff_side_and_category [OF buckets_ok_reset n p, of ex_game ex_bookmaker
        "''BookA''" ex_market "''batter_hits''"]
    by (simp add: lo c e d m) blast
  obtain pd2 st2 where t2:
      "make_prop_data ex_game ex_bookmaker ''BookA'' ex_market ''batter_walks'' ex_walks = Inr pd2"
      "process_outcome ex_game ex_bookmaker ''BookA'' ex_market ''batter_walks'' ex_walks reset = Inr st2"
      "over_props st2 = over_props reset"
      "under_props st2 = under_props reset"
      "props_of (unique_players st2) (Player pd2) =
        props_of (unique_players reset) (Player pd2) @
        [\<lparr>category = ''batter_walks'', bet_type = ''Over'', line = JNum (1 / 2), odds = 140,
          bookmaker = ''BookA'', game = ''A @ B''\<rparr>]"
    using routed_iff_side_and_category [OF buckets_ok_reset n2 p2, of ex_game ex_bookmaker
        "''BookA''" ex_market "''batter_walks''"]
    by (simp add: lo c2 d m) blast
  have q1: "Player pd = ''Player X''" using pl [OF t1(1) d(1)] .
  have q2: "Player pd2 = ''Player X''" using pl [OF t2(1) d(2)] .
  show ?thesis
    using t1 t2 n p n2 p2 buckets_ok_reset by (simp add: q1 q2 u0) 
qed

text \<open>
  C4. At the end of every run that returns, the lengths of all Over and Under bucket
  lists sum to at most the number of outcomes the run processed, and to exactly that
  number if and only if every processed outcome has a market key among the twelve
  categories and a name that lowers to \<^verbatim>\<open>'over'\<close> or \<^verbatim>\<open>'under'\<close>. The keys of both
  dictionaries are the twelve categories, so the sum over them is the sum over all
  buckets.
\<close>

theorem bucket_sum_bounded_by_processed:
  assumes "fetch_all_props_to_excel env max_events delay_between_requests filename = Inr (fname, st)"
  shows "dom (over_props (self st)) = set prop_categories \<and>
         dom (under_props (self st)) = set prop_categories \<and>
         buckets_sum (self st) \<le> length (run_pairs (limit_events max_events (listed env))) \<and>
         (buckets_sum (self st) = length (run_pairs (limit_events max_events (listed env))) \<longleftrightarrow>
            (\<forall>x \<in> set (run_pairs (limit_events max_events (listed env))). recognized x))"
proof -
  let ?st0 = "\<lparr>self = reset, events_summary = [], effects = [GetEvents]\<rparr>"
  let ?es = "limit_events max_events (listed env)"
  obtain events0 where ev: "get_mlb_events (listing env) = Inr events0"
    using assms by (cases "get_mlb_events (listing env)") (simp_all add: fetch_all_props_to_excel_def)
  have l: "listed env = events0" using ev by (simp add: listed_def)
  have "buckets_ok (self st) \<and> buckets_sum (self st) = length (filter recognized (run_pairs ?es))"
  proof (cases "events0 = []")
    case True
    then have "st = ?st0" using assms ev by (simp add: fetch_all_props_to_excel_def)
    moreover have "?es = []"
      using True l by (simp add: limit_events_def slice_to_def split: option.splits)
    ultimately show ?thesis
      by (simp add: buckets_ok_reset buckets_sum_reset run_pairs_def)
  next
    case False
    obtain st1 where lp: "events_loop delay_between_requests (length ?es) 1 ?es ?st0 = Inr st1"
      using assms ev False l
      by (cases "events_loop delay_between_requests (length ?es) 1 ?es ?st0")
         (simp_all add: fetch_all_props_to_excel_def Let_def)
    have "self st = self st1"
      using assms ev False l lp
      by (auto simp: fetch_all_props_to_excel_def Let_def split: if_splits)
    then show ?thesis
      using events_loop_ok [OF lp] by (simp add: buckets_ok_reset buckets_sum_reset)
  qed
  then show ?thesis
    using length_filter_le [of recognized "run_pairs ?es"]
      length_filter_eq_iff [of recognized "run_pairs ?es"]
    by (simp add: buckets_ok_def)
qed

theorem bucket_sum_bounded_by_processed_witness:
  "\<exists>fname st.
     fetch_all_props_to_excel ex_env None (3 / 2) None = Inr (fname, st) \<and>
     length (run_pairs (limit_events None (listed ex_env))) = 2 \<and>
     (\<forall>x \<in> set (run_pairs (limit_events None (listed ex_env))). recognized x) \<and>
     buckets_sum (self st) = 2"
proof -
  obtain fname st where r: "fetch_all_props_to_excel ex_env None (3 / 2) None = Inr (fname, st)"
    using ex_run by blast
  have rec: "\<forall>x \<in> set (run_pairs (limit_events None (listed ex_env))). recognized x"
    by (simp add: ex_run_pairs recognized_def prop_categories_def ex_over_def ex_under_def
        lower_def lower_char_def)
  have len: "length (run_pairs (limit_events None (listed ex_env))) = 2"
    by (simp add: ex_run_pairs)
  show ?thesis
    using bucket_sum_bounded_by_processed [OF r] r rec len by auto
qed

text \<open>
  C7. For a non-empty list of events, a loop that returns has slept for the delay after
  the fetch of every event but the final one, and has done nothing after the fetch of
  the final one: its last effect is a call for the final event.
\<close>

theorem delay_between_events_only:
  assumes "events_loop delay_between_requests (length events) 1 events st = Inr st'"
    and "events = front @ [final]"
  shows "effects st' =
           effects st @
           concat (map (\<lambda>x. fetch_effects x @ [Sleep delay_between_requests]) front) @
           fetch_effects final \<and>
         (\<exists>eid. event_id (fst final) = Some eid \<and> last (effects st') = GetEventProps eid)"
proof -
  have e: "effects st' =
           effects st @
           concat (map (\<lambda>x. fetch_effects x @ [Sleep delay_between_requests]) front) @
           fetch_effects final"
    using events_loop_effects [OF assms(1)] by (simp add: assms(2) join_snoc comp_def)
  obtain eid where eid: "event_id (fst final) = Some eid"
    using events_loop_reads [OF assms(1)] assms(2) by auto
  show ?thesis
    using e eid fetch_effects_last [OF eid] by simp
qed

theorem delay_between_events_only_witness:
  "\<exists>st'. events_loop (3 / 2) (length ex_events) 1 ex_events ex_start = Inr st' \<and>
         ex_events = [(ex_event, \<lambda>retry. HttpOk ex_response)] @ [(ex_event2, \<lambda>retry. RequestException)] \<and>
         effects st' =
           [GetEvents, GetEventProps ''e1'', Sleep (3 / 2),
            GetEventProps ''e2'', GetEventProps ''e2'', GetEventProps ''e2'']"
proof -
  obtain st' where r: "events_loop (3 / 2) (length ex_events) 1 ex_events ex_start = Inr st'"
    using ex_loop by blast
  have s: "ex_events = [(ex_event, \<lambda>retry. HttpOk ex_response)] @ [(ex_event2, \<lambda>retry. RequestException)]"
    by (simp add: ex_events_def)
  have f1: "fetch_effects (ex_event, \<lambda>retry. HttpOk ex_response) = [GetEventProps ''e1'']"
    by (simp add: fetch_effects_def ex_event_def fetch_with_retry_def upt_rec get_event_props_def
        truthy_def ex_response_def)
  have f2: "fetch_effects (ex_event2, \<lambda>retry. RequestException) =
              [GetEventProps ''e2'', GetEventProps ''e2'', GetEventProps ''e2'']"
    by (simp add: fetch_effects_def ex_event2_def fetch_with_retry_def upt_rec get_event_props_def
        truthy_def)
  have "effects ex_start = [GetEvents]" by (simp add: ex_start_def)
  then show ?thesis
    using delay_between_events_only [OF r s] r s by (simp add: f1 f2)
qed

text \<open>
  C1. The retry loop on an event whose three calls all end in a request exception, which
  \<^verbatim>\<open>get_event_props\<close> turns into \<^verbatim>\<open>None\<close>: the three calls follow each other with no
  sleep in between and the event yields no answer. The sleep of two seconds separates the
  attempts only when the call itself raises.
\<close>

theorem request_errors_retried_without_backoff:
  "fetch_with_retry eid (\<lambda>retry. RequestException) tr =
     (None, tr @ [GetEventProps eid, GetEventProps eid, GetEventProps eid]) \<and>
   fetch_with_retry eid (\<lambda>retry. OtherException) tr =
     (None, tr @ [GetEventProps eid, Sleep 2, GetEventProps eid, Sleep 2, GetEventProps eid])"
  by (simp add: fetch_with_retry_def upt_rec get_event_props_def truthy_def)

text \<open>
  C2, as stated, at a market with the outcomes Over, an outcome without price, Under:
  the outcome without price is not skipped, the loop over the outcomes raises
  \<^verbatim>\<open>KeyError\<close>, and the Under outcome after it is never processed: the Under bucket
  is still empty when the exception leaves the loop.
\<close>

theorem missing_price_raises_counterexample:
  "raised (outcomes_loop ex_game ex_bookmaker ''BookA'' ex_market_bad ''batter_hits''
     [ex_over, ex_no_price, ex_under] reset) = Some (KeyError ''price'') \<and>
   bucket_list (under_props (state_of (outcomes_loop ex_game ex_bookmaker ''BookA'' ex_market_bad
     ''batter_hits'' [ex_over, ex_no_price, ex_under] reset))) ''batter_hits'' = []"
  by (simp add: raised_def state_of_def bucket_list_def
      process_outcome_def make_prop_data_def subscript_def ex_over_def
      ex_no_price_def route_def prop_categories_def lower_def lower_char_def bucket_append_def
      reset_def empty_buckets_def)

text \<open>
  C2, amended. Where a market holds an outcome without name or without price, and the
  outcomes before it have both, the loop over the market's outcomes processes the
  outcomes before it and then raises \<^verbatim>\<open>KeyError\<close> for the missing key, name first.
  The fetcher at the raise is the one the outcomes before it leave behind: every one of
  them has been normalised, its entry stands in its player's list of props, and it stands
  in the Over or Under bucket when its side and market key are recognised. The outcome
  without the key and the outcomes after it have stored nothing.
\<close>

theorem malformed_outcome_raises:
  assumes "name oc = None \<or> price oc = None"
    and "buckets_ok st"
    and "list_all has_required before"
  shows "\<exists>st1.
           outcomes_loop gv bm bookmaker_name mk market_key before st = Inr st1 \<and>
           outcomes_loop gv bm bookmaker_name mk market_key (before @ oc # after) st =
             Inl (KeyError (if name oc = None then ''name'' else ''price''), st1) \<and>
           (\<forall>n. props_of (unique_players st1) n =
                  props_of (unique_players st) n @
                  map (make_prop_info market_key)
                    (filter (\<lambda>pd. Player pd = n)
                       (normalize_all gv bm bookmaker_name mk market_key before))) \<and>
           (\<forall>c. bucket_list (over_props st1) c =
                  bucket_list (over_props st) c @
                  filter (\<lambda>pd. c = market_key \<and> market_key \<in> set prop_categories \<and>
                                lower (Bet_Type pd) = ''over'')
                    (normalize_all gv bm bookmaker_name mk market_key before)) \<and>
           (\<forall>c. bucket_list (under_props st1) c =
                  bucket_list (under_props st) c @
                  filter (\<lambda>pd. c = market_key \<and> market_key \<in> set prop_categories \<and>
                                lower (Bet_Type pd) = ''under'')
                    (normalize_all gv bm bookmaker_name mk market_key before)) \<and>
           length (normalize_all gv bm bookmaker_name mk market_key before) = length before"
proof -
  obtain st1 where
    l: "outcomes_loop gv bm bookmaker_name mk market_key before st = Inr st1"
    and rest:
      "(\<forall>n. props_of (unique_players st1) n =
                  props_of (unique_players st) n @
                  map (make_prop_info market_key)
                    (filter (\<lambda>pd. Player pd = n)
                       (normalize_all gv bm bookmaker_name mk market_key before))) \<and>
           (\<forall>c. bucket_list (over_props st1) c =
                  bucket_list (over_props st) c @
                  filter (\<lambda>pd. c = market_key \<and> market_key \<in> set prop_categories \<and>
                                lower (Bet_Type pd) = ''over'')
                    (normalize_all gv bm bookmaker_name mk market_key before)) \<and>
           (\<forall>c. bucket_list (under_props st1) c =
                  bucket_list (under_props st) c @
                  filter (\<lambda>pd. c = market_key \<and> market_key \<in> set prop_categories \<and>
                                lower (Bet_Type pd) = ''under'')
                    (normalize_all gv bm bookmaker_name mk market_key before))"
    using outcomes_loop_lists [OF assms(2,3), of gv bm bookmaker_name mk market_key] by blast
  have "make_prop_data gv bm bookmaker_name mk market_key oc =
          Inl (KeyError (if name oc = None then ''name'' else ''price''))"
    using assms(1) by (auto simp: make_prop_data_def subscript_def split: option.splits)
  then have "outcomes_loop gv bm bookmaker_name mk market_key (oc # after) st1 =
          Inl (KeyError (if name oc = None then ''name'' else ''price''), st1)"
    by (simp add: process_outcome_def)
  then have r: "outcomes_loop gv bm bookmaker_name mk market_key (before @ oc # after) st =
             Inl (KeyError (if name oc = None then ''name'' else ''price''), st1)"
    using l by (simp add: outcomes_loop_append)
  have len: "length (normalize_all gv bm bookmaker_name mk market_key before) = length before"
    using assms(3) normalize_all_length by blast
  show ?thesis using l r rest len by blast
qed

theorem malformed_outcome_raises_witness:
  "(name ex_no_name = None \<or> price ex_no_name = None) \<and> buckets_ok reset \<and>
   list_all has_required [ex_over, ex_under] \<and>
   (\<exists>st1.
      outcomes_loop ex_game ex_bookmaker ''BookA'' ex_market ''batter_hits''
        ([ex_over, ex_under] @ ex_no_name # [ex_walks]) reset = Inl (KeyError ''name'', st1) \<and>
      map bet_type (props_of (unique_players st1) ''Player X'') = [''Over'', ''Under''] \<and>
      props_of (unique_players st1) ''Player Z'' = [] \<and>
      map Odds (bucket_list (over_props st1) ''batter_hits'') = [- 120] \<and>
      map Odds (bucket_list (under_props st1) ''batter_hits'') = [100])"
proof -
  have h: "name ex_no_name = None \<or> price ex_no_name = None" by (simp add: ex_no_name_def)
  have n: "name ex_no_name = None" by (simp add: ex_no_name_def)
  have w: "list_all has_required [ex_over, ex_under]"
    by (simp add: has_required_def ex_over_def ex_under_def)
  have na: "normalize_all ex_game ex_bookmaker ''BookA'' ex_market ''batter_hits'' [ex_over, ex_under] =
      [\<lparr>Event_ID = ''e1'', Game = ''A @ B'', Game_Time = ''2025-07-01T23:05:00Z'',
        Category = ''batter_hits'', Player = ''Player X'', Bet_Type = ''Over'',
        Line = JNum (3 / 2), Odds = - 120, Bookmaker = ''BookA'',
        Last_Update = ''2025-07-01T20:00:00Z''\<rparr>,
       \<lparr>Event_ID = ''e1'', Game = ''A @ B'', Game_Time = ''2025-07-01T23:05:00Z'',
        Category = ''batter_hits'', Player = ''Player X'', Bet_Type = ''Under'',
        Line = JNum (3 / 2), Odds = 100, Bookmaker = ''BookA'',
        Last_Update = ''2025-07-01T20:00:00Z''\<rparr>]"
    by (simp add: normalize_all_def make_prop_data_def subscript_def dict_get_def ex_over_def
        ex_under_def ex_game_def matchup_def ex_market_def)
  have lo: "lower ''Over'' = ''over''" "lower ''Under'' = ''under''"
    by (simp_all add: lower_def lower_char_def)
  have c: "''batter_hits'' \<in> set prop_categories" by (simp add: prop_categories_def)
  have z: "props_of (unique_players reset) ''Player X'' = []"
    "props_of (unique_players reset) ''Player Z'' = []"
    "bucket_list (over_props reset) ''batter_hits'' = []"
    "bucket_list (under_props reset) ''batter_hits'' = []"
    by (simp_all add: props_of_def bucket_list_def reset_def empty_buckets_def prop_categories_def)
  obtain st1 where
    r0: "outcomes_loop ex_game ex_bookmaker ''BookA'' ex_market ''batter_hits''
        ([ex_over, ex_under] @ ex_no_name # [ex_walks]) reset =
          Inl (KeyError (if name ex_no_name = None then ''name'' else ''price''), st1)"
    and P: "\<forall>n. props_of (unique_players st1) n =
                  props_of (unique_players reset) n @
                  map (make_prop_info ''batter_hits'')
                    (filter (\<lambda>pd. Player pd = n)
                       (normalize_all ex_game ex_bookmaker ''BookA'' ex_market ''batter_hits''
                          [ex_over, ex_under]))"
    and O: "\<forall>c. bucket_list (over_props st1) c =
                  bucket_list (over_props reset) c @
                  filter (\<lambda>pd. c = ''batter_hits'' \<and> ''batter_hits'' \<in> set prop_categories \<and>
                                lower (Bet_Type pd) = ''over'')
                    (normalize_all ex_game ex_bookmaker ''BookA'' ex_market ''batter_hits''
                       [ex_over, ex_under])"
    and U: "\<forall>c. bucket_list (under_props st1) c =
                  bucket_list (under_props reset) c @
                  filter (\<lambda>pd. c = ''batter_hits'' \<and> ''batter_hits'' \<in> set prop_categories \<and>
                                lower (Bet_Type pd) = ''under'')
                    (normalize_all ex_game ex_bookmaker ''BookA'' ex_market ''batter_hits''
                       [ex_over, ex_under])"
    using malformed_outcome_raises [OF h buckets_ok_reset w, of ex_game ex_bookmaker "''BookA''"
        ex_market "''batter_hits''" "[ex_walks]"]
    by blast
  have r: "outcomes_loop ex_game ex_bookmaker ''BookA'' ex_market ''batter_hits''
        ([ex_over, ex_under] @ ex_no_name # [ex_walks]) reset = Inl (KeyError ''name'', st1)"
    using r0 by (simp only: n simp_thms if_True)
  note px = P [rule_format, of "''Player X''"]
  note pz = P [rule_format, of "''Player Z''"]
  note ov = O [rule_format, of "''batter_hits''"]
  note un = U [rule_format, of "''batter_hits''"]
  have 1: "map bet_type (props_of (unique_players st1) ''Player X'') = [''Over'', ''Under'']"
    by (simp add: px na z make_prop_info_def)
  have 2: "props_of (unique_players st1) ''Player Z'' = []"
    by (simp add: pz na z)
  have 3: "map Odds (bucket_list (over_props st1) ''batter_hits'') = [- 120]"
    by (simp add: ov na z lo c)
  have 4: "map Odds (bucket_list (under_props st1) ''batter_hits'') = [100]"
    by (simp add: un na z lo c)
  have ex: "\<exists>st1.
      outcomes_loop ex_game ex_bookmaker ''BookA'' ex_market ''batter_hits''
        ([ex_over, ex_under] @ ex_no_name # [ex_walks]) reset = Inl (KeyError ''name'', st1) \<and>
      map bet_type (props_of (unique_players st1) ''Player X'') = [''Over'', ''Under''] \<and>
      props_of (unique_players st1) ''Player Z'' = [] \<and>
      map Odds (bucket_list (over_props st1) ''batter_hits'') = [- 120] \<and>
      map Odds (bucket_list (under_props st1) ''batter_hits'') = [100]"
    by (rule exI [of _ st1]) (rule conjI [OF r conjI [OF 1 conjI [OF 2 conjI [OF 3 4]]]])
  show ?thesis
    by (rule conjI [OF h conjI [OF buckets_ok_reset conjI [OF w ex]]])
qed




end
